theory Spec2Isabelle
  imports Main "HOL-Library.Word"
begin

section \<open>The sample builder of pkg/builder.go\<close>

text \<open>
  A \<open>Builder\<close> reads RTP packets from one track, feeds them to a sample builder of the
  webrtc library, hands every completed sample to the buffered channel \<open>out\<close> (goroutine
  \<open>build\<close>) and writes every sample taken from that channel to the attached elements
  (goroutine \<open>forward\<close>).

  The two goroutines and the callers of \<open>AttachElement\<close>, \<open>OnStop\<close>, \<open>stop\<close> and
  \<open>stats\<close> run concurrently. Every access to \<open>stopped\<close>, \<open>elements\<close> and
  \<open>onStopHandler\<close> happens with \<open>mu\<close> held, \<open>sequence\<close> and the sample builder are
  touched by \<open>build\<close> only, and \<open>out\<close> is a channel. The program is therefore
  modelled as an interleaving of atomic steps: one step is one critical section of
  \<open>mu\<close>, one channel operation or one call into the environment (the track, the
  sample builder, an element). Each goroutine has a program counter that names the
  source line it will execute next. What the environment answers (the result of
  \<open>ReadRTP\<close>, of \<open>PopWithTimestamp\<close>, of \<open>Write\<close>) comes with the step's label.
\<close>

subsection \<open>Data\<close>

type_synonym element = nat \<comment> \<open>the identity of a value of interface \<open>Element\<close>\<close>
type_synonym handler = nat \<comment> \<open>the identity of a non-nil \<open>func()\<close>\<close>
type_synonym bytes = "8 word list"

text \<open>\<open>rtp.Packet\<close>, as far as the program and the claims look at it.\<close>

record Packet =
  PacketSequenceNumber :: "16 word"
  PacketTimestamp :: "32 word"
  PacketPayload :: bytes

text \<open>\<open>Sample\<close>, the value sent through \<open>out\<close> and written to the elements.\<close>

record Sample =
  Type :: int
  SequenceNumber :: "16 word"
  Timestamp :: "32 word"
  Payload :: bytes
  TrackID :: string

text \<open>\<open>webrtc.Track\<close>: what \<open>Codec().Name\<close>, \<open>Codec().Type\<close> and \<open>ID()\<close> return.\<close>

record Track =
  CodecName :: string
  CodecType :: int
  ID :: string

text \<open>
  The codec names \<open>webrtc.Opus\<close>, \<open>webrtc.VP8\<close>, \<open>webrtc.VP9\<close> and \<open>webrtc.H264\<close> are
  string constants of the webrtc library; they are a parameter here.
\<close>

record codec_names =
  Opus :: string
  VP8 :: string
  VP9 :: string
  H264 :: string

datatype depacketizer = OpusPacket | VP8Packet | VP9Packet | H264Packet

datatype checker =
  OpusPartitionHeadChecker | VP8PartitionHeadChecker | VP9PartitionHeadChecker

text \<open>
  \<open>samplebuilder.SampleBuilder\<close> as \<open>NewBuilder\<close> configures it. A nil interface value
  is \<open>None\<close>.
\<close>

record SampleBuilder =
  maxLate :: "16 word"
  depacketizer :: "depacketizer option"
  partitionHeadChecker :: "checker option"

text \<open>What the program does to its environment, in the order it does it.\<close>

datatype event =
    Push Packet \<comment> \<open>\<open>b.builder.Push(pkt)\<close>\<close>
  | Enqueued Sample \<comment> \<open>\<open>b.out <- sample\<close> went through\<close>
  | Received Sample \<comment> \<open>\<open><-b.out\<close> took this sample out of the channel\<close>
  | Write element "Sample option" \<comment> \<open>\<open>e.Write(sample)\<close>; \<open>None\<close> is the nil pointer\<close>
  | Close element \<comment> \<open>\<open>e.Close()\<close>\<close>
  | StopHandler handler \<comment> \<open>\<open>b.onStopHandler()\<close>\<close>
  | CloseOut \<comment> \<open>\<open>close(b.out)\<close>\<close>
  | LogReadError string \<comment> \<open>\<open>log.Errorf("Error reading track rtp %s", err)\<close>\<close>
  | LogWriteError string \<comment> \<open>\<open>log.Errorf("error writing sample: %s", err)\<close>\<close>

text \<open>The result of \<open>b.track.ReadRTP()\<close>.\<close>

datatype read_result = Pkt Packet | EOF | ReadErr string

text \<open>
  The program counter of \<open>build\<close>. \<open>BCheckPopped\<close> holds the result of
  \<open>PopWithTimestamp\<close> (\<open>None\<close> when the sample is nil), \<open>BSend\<close> the data and the
  timestamp of the sample to send.
\<close>

datatype build_pc =
    BCheckStop \<comment> \<open>lines 93 to 98\<close>
  | BReadRTP \<comment> \<open>lines 100 to 110\<close>
  | BStop \<comment> \<open>lines 103 and 104\<close>
  | BPop \<comment> \<open>line 114\<close>
  | BCheckPopped "(bytes \<times> 32 word) option" \<comment> \<open>lines 117 to 126\<close>
  | BSend bytes "32 word" \<comment> \<open>lines 128 to 135\<close>
  | BReturned

text \<open>The program counter of \<open>forward\<close>; \<open>FWrite\<close> holds the value received.\<close>

datatype forward_pc =
    FReceive \<comment> \<open>line 143\<close>
  | FWrite "Sample option" \<comment> \<open>lines 145 to 157\<close>
  | FReturned

text \<open>
  \<open>Builder\<close>. The channel \<open>out\<close> is its buffer and the flag \<open>out_closed\<close>; the two
  program counters and the log of events are the state of the model.
\<close>

record Builder =
  stopped :: bool
  onStopHandler :: "handler option"
  builder :: SampleBuilder
  elements :: "element list"
  sequence :: "16 word"
  track :: Track
  out :: "Sample list"
  out_closed :: bool
  build_pc :: build_pc
  forward_pc :: forward_pc
  events :: "event list"

definition maxSize :: nat where
  "maxSize = 100"

subsection \<open>NewBuilder\<close>

text \<open>
  The switch of \<open>NewBuilder\<close>: the first matching case sets the depacketizer and the
  checker; there is no default case, so both stay nil for any other name.
\<close>

definition select_codec :: "codec_names \<Rightarrow> string \<Rightarrow> depacketizer option \<times> checker option" where
  "select_codec c name =
     (if name = Opus c then (Some OpusPacket, Some OpusPartitionHeadChecker)
      else if name = VP8 c then (Some VP8Packet, Some VP8PartitionHeadChecker)
      else if name = VP9 c then (Some VP9Packet, Some VP9PartitionHeadChecker)
      else if name = H264 c then (Some H264Packet, None)
      else (None, None))"

text \<open>
  \<open>samplebuilder.New(maxLate, depacketizer)\<close> followed by
  \<open>WithPartitionHeadChecker(checker)\<close> when the checker is not nil.
\<close>

definition New :: "16 word \<Rightarrow> depacketizer option \<Rightarrow> SampleBuilder" where
  "New m d = \<lparr> maxLate = m, depacketizer = d, partitionHeadChecker = None \<rparr>"

definition NewBuilder :: "codec_names \<Rightarrow> Track \<Rightarrow> 16 word \<Rightarrow> Builder" where
  "NewBuilder c t m =
     (let (d, ch) = select_codec c (CodecName t);
          sb = New m d;
          sb' = (case ch of None \<Rightarrow> sb | Some k \<Rightarrow> sb\<lparr> partitionHeadChecker := Some k \<rparr>)
      in \<lparr> stopped = False, onStopHandler = None, builder = sb', elements = [],
           sequence = 0, track = t, out = [], out_closed = False,
           build_pc = BCheckStop, forward_pc = FReceive, events = [] \<rparr>)"

subsection \<open>The methods called from outside\<close>

definition AttachElement :: "element \<Rightarrow> Builder \<Rightarrow> Builder" where
  "AttachElement e b = b\<lparr> elements := elements b @ [e] \<rparr>"

definition OnStop :: "handler option \<Rightarrow> Builder \<Rightarrow> Builder" where
  "OnStop f b = b\<lparr> onStopHandler := f \<rparr>"

text \<open>\<open>stop\<close>, one critical section of \<open>mu\<close>.\<close>

definition stop :: "Builder \<Rightarrow> Builder" where
  "stop b =
     (if stopped b then b
      else b\<lparr> stopped := True,
              out_closed := True,
              events := events b @ map Close (elements b)
                @ (case onStopHandler b of None \<Rightarrow> [] | Some f \<Rightarrow> [StopHandler f])
                @ [CloseOut] \<rparr>)"

text \<open>
  \<open>stats\<close> reads the state and returns a string; \<open>type_name\<close> stands for the
  formatting verb \<open>%T\<close>.
\<close>

definition stats :: "(element \<Rightarrow> string) \<Rightarrow> Builder \<Rightarrow> string" where
  "stats type_name b =
     foldl (\<lambda>info e. info @ ''        element: '' @ type_name e @ [CHR 0x0A])
       (''      track: '' @ ID (track b) @ [CHR 0x0A]) (elements b)"

subsection \<open>The goroutine build\<close>

text \<open>
  A step that cannot be taken is a fault: the label does not fit the program counter
  (\<open>NotEnabled\<close>), the goroutine waits on the channel (\<open>Blocked\<close>), or the send
  panics because the channel is closed (\<open>SendOnClosedChannel\<close>), which ends the
  whole program.
\<close>

datatype fault = NotEnabled | Blocked | SendOnClosedChannel

text \<open>The steps of \<open>build\<close> that need no answer from the environment.\<close>

definition build_step :: "Builder \<Rightarrow> fault + Builder" where
  "build_step b =
     (case build_pc b of
        BCheckStop \<Rightarrow>
          Inr (if stopped b then b\<lparr> build_pc := BReturned \<rparr> else b\<lparr> build_pc := BReadRTP \<rparr>)
      | BStop \<Rightarrow> Inr ((stop b)\<lparr> build_pc := BReturned \<rparr>)
      | BCheckPopped r \<Rightarrow>
          Inr (if stopped b then b\<lparr> build_pc := BReturned \<rparr>
               else (case r of
                       None \<Rightarrow> b\<lparr> build_pc := BCheckStop \<rparr>
                     | Some (d, ts) \<Rightarrow> b\<lparr> build_pc := BSend d ts \<rparr>))
      | BSend d ts \<Rightarrow>
          (if out_closed b then Inl SendOnClosedChannel
           else if maxSize \<le> length (out b) then Inl Blocked
           else
             (let s = \<lparr> Type = CodecType (track b), SequenceNumber = sequence b,
                        Timestamp = ts, Payload = d, TrackID = ID (track b) \<rparr>
              in Inr (b\<lparr> out := out b @ [s],
                         sequence := sequence b + 1,
                         events := events b @ [Enqueued s],
                         build_pc := BPop \<rparr>)))
      | _ \<Rightarrow> Inl NotEnabled)"

text \<open>\<open>b.track.ReadRTP()\<close> returns, and what lines 101 to 110 do with the result.\<close>

definition build_read :: "read_result \<Rightarrow> Builder \<Rightarrow> fault + Builder" where
  "build_read r b =
     (if build_pc b \<noteq> BReadRTP then Inl NotEnabled
      else (case r of
              EOF \<Rightarrow> Inr (b\<lparr> build_pc := BStop \<rparr>)
            | ReadErr msg \<Rightarrow>
                Inr (b\<lparr> events := events b @ [LogReadError msg], build_pc := BCheckStop \<rparr>)
            | Pkt p \<Rightarrow> Inr (b\<lparr> events := events b @ [Push p], build_pc := BPop \<rparr>)))"

text \<open>\<open>b.builder.PopWithTimestamp()\<close> returns.\<close>

definition build_pop :: "(bytes \<times> 32 word) option \<Rightarrow> Builder \<Rightarrow> fault + Builder" where
  "build_pop r b =
     (if build_pc b \<noteq> BPop then Inl NotEnabled
      else Inr (b\<lparr> build_pc := BCheckPopped r \<rparr>))"

subsection \<open>The goroutine forward\<close>

text \<open>
  \<open>sample := <-b.out\<close>: the oldest buffered value; nil at once when the channel is
  closed and empty; otherwise the goroutine waits.
\<close>

definition forward_receive :: "Builder \<Rightarrow> fault + Builder" where
  "forward_receive b =
     (if forward_pc b \<noteq> FReceive then Inl NotEnabled
      else (case out b of
              s # rest \<Rightarrow>
                Inr (b\<lparr> out := rest, events := events b @ [Received s],
                       forward_pc := FWrite (Some s) \<rparr>)
            | [] \<Rightarrow> if out_closed b then Inr (b\<lparr> forward_pc := FWrite None \<rparr>)
                    else Inl Blocked))"

text \<open>
  The loop over the elements: \<open>errs e\<close> is the error that \<open>e.Write(sample)\<close> returns
  in this pass, \<open>None\<close> for nil.
\<close>

fun write_elements :: "(element \<Rightarrow> string option) \<Rightarrow> Sample option \<Rightarrow> element list \<Rightarrow> event list" where
  "write_elements errs s [] = []"
| "write_elements errs s (e # es) =
     Write e s # (case errs e of None \<Rightarrow> [] | Some msg \<Rightarrow> [LogWriteError msg])
       @ write_elements errs s es"

text \<open>Lines 145 to 157, one read-locked section.\<close>

definition forward_write :: "(element \<Rightarrow> string option) \<Rightarrow> Builder \<Rightarrow> fault + Builder" where
  "forward_write errs b =
     (case forward_pc b of
        FWrite s \<Rightarrow>
          Inr (if stopped b then b\<lparr> forward_pc := FReturned \<rparr>
               else b\<lparr> events := events b @ write_elements errs s (elements b),
                       forward_pc := FReceive \<rparr>)
      | _ \<Rightarrow> Inl NotEnabled)"

subsection \<open>Interleavings\<close>

datatype action =
    DoAttachElement element
  | DoOnStop "handler option"
  | DoStop \<comment> \<open>\<open>stop\<close> called by another goroutine of the package\<close>
  | DoStats
  | BuildStep
  | BuildRead read_result
  | BuildPop "(bytes \<times> 32 word) option"
  | ForwardReceive
  | ForwardWrite "element \<Rightarrow> string option"

fun step :: "action \<Rightarrow> Builder \<Rightarrow> fault + Builder" where
  "step (DoAttachElement e) b = Inr (AttachElement e b)"
| "step (DoOnStop f) b = Inr (OnStop f b)"
| "step DoStop b = Inr (stop b)"
| "step DoStats b = Inr b"
| "step BuildStep b = build_step b"
| "step (BuildRead r) b = build_read r b"
| "step (BuildPop r) b = build_pop r b"
| "step ForwardReceive b = forward_receive b"
| "step (ForwardWrite errs) b = forward_write errs b"

text \<open>A schedule is run until it ends or a step faults.\<close>

fun run :: "action list \<Rightarrow> Builder \<Rightarrow> fault + Builder" where
  "run [] b = Inr b"
| "run (a # as) b = (case step a b of Inl f \<Rightarrow> Inl f | Inr b' \<Rightarrow> run as b')"

subsection \<open>Reading the log of events\<close>

text \<open>The calls of \<open>Write\<close> in a log, oldest first: the element and the sample.\<close>

fun written :: "event list \<Rightarrow> (element \<times> Sample option) list" where
  "written [] = []"
| "written (Write e s # evs) = (e, s) # written evs"
| "written (_ # evs) = written evs"

text \<open>The elements that were written to, oldest first.\<close>

definition written_to :: "event list \<Rightarrow> element list" where
  "written_to evs = map fst (written evs)"

text \<open>The elements whose \<open>Close\<close> was called.\<close>

fun closes :: "event list \<Rightarrow> element list" where
  "closes [] = []"
| "closes (Close e # evs) = e # closes evs"
| "closes (_ # evs) = closes evs"

text \<open>The samples handed to the channel.\<close>

fun emitted :: "event list \<Rightarrow> Sample list" where
  "emitted [] = []"
| "emitted (Enqueued s # evs) = s # emitted evs"
| "emitted (_ # evs) = emitted evs"

text \<open>The samples that \<open>forward\<close> took out of the channel, oldest first.\<close>

fun received :: "event list \<Rightarrow> Sample list" where
  "received [] = []"
| "received (Received s # evs) = s # received evs"
| "received (_ # evs) = received evs"

text \<open>
  The calls of \<open>Write\<close> with the pass they belong to: the element, the index of the
  pass (the number of samples received before the call, less one: passes are counted
  from 0 in the order of reception) and the sample. \<open>n\<close> is the number of samples
  received before the log starts.
\<close>

fun deliveries :: "nat \<Rightarrow> event list \<Rightarrow> (element \<times> nat \<times> Sample option) list" where
  "deliveries n [] = []"
| "deliveries n (Received s # evs) = deliveries (Suc n) evs"
| "deliveries n (Write e s # evs) = (e, n - 1, s) # deliveries n evs"
| "deliveries n (_ # evs) = deliveries n evs"

text \<open>
  The number of samples whose pass is over: all that were received, but for the one
  that \<open>forward\<close> holds before its locked section.
\<close>

definition completed :: "Builder \<Rightarrow> nat" where
  "completed b =
     length (received (events b))
       - (case forward_pc b of FWrite (Some s) \<Rightarrow> 1 | _ \<Rightarrow> 0)"

text \<open>The error messages logged for failed writes.\<close>

fun write_errors :: "event list \<Rightarrow> string list" where
  "write_errors [] = []"
| "write_errors (LogWriteError msg # evs) = msg # write_errors evs"
| "write_errors (_ # evs) = write_errors evs"

text \<open>The events of a teardown: closing an element, the stop handler, closing the channel.\<close>

fun is_teardown :: "event \<Rightarrow> bool" where
  "is_teardown (Close e) = True"
| "is_teardown (StopHandler f) = True"
| "is_teardown CloseOut = True"
| "is_teardown _ = False"

definition teardown :: "event list \<Rightarrow> event list" where
  "teardown evs = filter is_teardown evs"

text \<open>What one effective call of \<open>stop\<close> does, in order.\<close>

definition stop_events :: "Builder \<Rightarrow> event list" where
  "stop_events b =
     map Close (elements b)
       @ (case onStopHandler b of None \<Rightarrow> [] | Some f \<Rightarrow> [StopHandler f])
       @ [CloseOut]"

text \<open>No element is written to after it was closed.\<close>

fun no_write_after_close :: "event list \<Rightarrow> bool" where
  "no_write_after_close [] = True"
| "no_write_after_close (Close e # evs) =
     (e \<notin> set (written_to evs) \<and> no_write_after_close evs)"
| "no_write_after_close (_ # evs) = no_write_after_close evs"

subsection \<open>Invariants\<close>

text \<open>No write follows a close, and nothing is closed before the builder is stopped.\<close>

definition close_inv :: "Builder \<Rightarrow> bool" where
  "close_inv b \<longleftrightarrow> no_write_after_close (events b) \<and> (\<not> stopped b \<longrightarrow> closes (events b) = [])"

text \<open>Only attached elements were written to or closed.\<close>

definition attached_inv :: "Builder \<Rightarrow> bool" where
  "attached_inv b \<longleftrightarrow> set (written_to (events b)) \<subseteq> set (elements b)
     \<and> set (closes (events b)) \<subseteq> set (elements b)"

text \<open>The samples sent carry the numbers from 0 on, and \<open>sequence\<close> is their count.\<close>

definition sequence_inv :: "Builder \<Rightarrow> bool" where
  "sequence_inv b \<longleftrightarrow>
     map SequenceNumber (emitted (events b)) = map word_of_nat [0..<length (emitted (events b))]
     \<and> sequence b = word_of_nat (length (emitted (events b)))"

text \<open>The channel is closed exactly when the builder is stopped.\<close>

definition closed_inv :: "Builder \<Rightarrow> bool" where
  "closed_inv b \<longleftrightarrow> (out_closed b \<longleftrightarrow> stopped b)"

text \<open>
  The channel hands over what was sent, in order and once; \<open>forward\<close> holds the
  sample it received last, or nil on a stopped builder only; every write carries the
  sample of its pass.
\<close>

definition dispatch_inv :: "Builder \<Rightarrow> bool" where
  "dispatch_inv b \<longleftrightarrow>
     (out_closed b \<longleftrightarrow> stopped b)
     \<and> (forward_pc b = FWrite None \<longrightarrow> stopped b)
     \<and> (\<forall>s. forward_pc b = FWrite (Some s) \<longrightarrow>
           received (events b) \<noteq> [] \<and> last (received (events b)) = s)
     \<and> received (events b) @ out b = emitted (events b)
     \<and> (\<forall>e k s. (e, k, s) \<in> set (deliveries 0 (events b)) \<longrightarrow>
           k < length (received (events b)) \<and> s = Some (received (events b) ! k))"

subsection \<open>An instance for concrete runs\<close>

text \<open>The values of the four name constants in the webrtc library, and one video track.\<close>

definition example_names :: codec_names where
  "example_names = \<lparr> Opus = ''opus'', VP8 = ''VP8'', VP9 = ''VP9'', H264 = ''H264'' \<rparr>"

definition example_track :: Track where
  "example_track = \<lparr> CodecName = ''VP8'', CodecType = 2, ID = ''video'' \<rparr>"

definition example_packet :: Packet where
  "example_packet =
     \<lparr> PacketSequenceNumber = 4711, PacketTimestamp = 90000, PacketPayload = [1, 2, 3] \<rparr>"

text \<open>
  Schedules and values for concrete runs: the builder stopped from two sides; one packet
  that completes one sample, up to the moment \<open>forward\<close> has received it; that sample;
  an element whose \<open>Write\<close> fails; one full round of both goroutines.
\<close>

definition two_stops :: "action list" where
  "two_stops = [DoAttachElement 1, DoAttachElement 2, DoOnStop (Some 7), BuildStep,
     BuildRead EOF, DoStop, DoAttachElement 3, BuildStep, DoStop]"

definition one_sample :: "action list" where
  "one_sample = [BuildStep, BuildRead (Pkt example_packet), BuildPop (Some ([9], 5)),
     BuildStep, BuildStep, ForwardReceive]"

definition sample0 :: Sample where
  "sample0 = \<lparr> Type = 2, SequenceNumber = 0, Timestamp = 5, Payload = [9], TrackID = ''video'' \<rparr>"

definition sample1 :: Sample where
  "sample1 = \<lparr> Type = 2, SequenceNumber = 1, Timestamp = 6, Payload = [8], TrackID = ''video'' \<rparr>"

definition fails1 :: "element \<Rightarrow> string option" where
  "fails1 e = (if e = 1 then Some ''disk full'' else None)"

definition cycle :: "action list" where
  "cycle = [BuildStep, BuildRead (Pkt example_packet), BuildPop (Some ([9], 5)), BuildStep,
     BuildStep, BuildPop None, BuildStep, ForwardReceive, ForwardWrite (\<lambda>e. None)]"

text \<open>Both goroutines are at the top of their loops and the channel is empty and open.\<close>

definition idle :: "Builder \<Rightarrow> bool" where
  "idle b \<longleftrightarrow> \<not> stopped b \<and> \<not> out_closed b \<and> out b = []
     \<and> build_pc b = BCheckStop \<and> forward_pc b = FReceive"

section \<open>Properties\<close>

subsection \<open>Logs and schedules\<close>

lemmas step_defs = build_step_def build_read_def build_pop_def forward_receive_def
  forward_write_def AttachElement_def OnStop_def stop_def

lemmas step_splits = if_splits build_pc.splits forward_pc.splits option.splits
  read_result.splits list.splits prod.splits

lemma run_append:
  "run (xs @ ys) b = (case run xs b of Inl f \<Rightarrow> Inl f | Inr b' \<Rightarrow> run ys b')"
  by (induction xs arbitrary: b) (auto split: sum.splits)

lemma run_invariant:
  assumes "run as b = Inr b'" and "P b"
    and "\<And>a b b'. P b \<Longrightarrow> step a b = Inr b' \<Longrightarrow> P b'"
  shows "P b'"
  using assms(1,2)
proof (induction as arbitrary: b)
  case Nil
  then show ?case by simp
next
  case (Cons a as)
  then show ?case
    by (auto split: sum.splits intro: assms(3))
qed

lemma written_append: "written (xs @ ys) = written xs @ written ys"
  by (induction xs rule: written.induct) auto

lemma written_to_append: "written_to (xs @ ys) = written_to xs @ written_to ys"
  by (simp add: written_to_def written_append)

lemma closes_append: "closes (xs @ ys) = closes xs @ closes ys"
  by (induction xs rule: closes.induct) auto

lemma emitted_append: "emitted (xs @ ys) = emitted xs @ emitted ys"
  by (induction xs rule: emitted.induct) auto

lemma write_errors_append: "write_errors (xs @ ys) = write_errors xs @ write_errors ys"
  by (induction xs rule: write_errors.induct) auto

lemma teardown_append: "teardown (xs @ ys) = teardown xs @ teardown ys"
  by (simp add: teardown_def)

lemma no_write_after_close_append:
  "no_write_after_close (xs @ ys) \<longleftrightarrow>
     no_write_after_close xs \<and> no_write_after_close ys \<and>
     set (closes xs) \<inter> set (written_to ys) = {}"
  by (induction xs rule: no_write_after_close.induct) (auto simp: written_to_append)

lemma written_map_Close: "written (map Close es) = []"
  by (induction es) auto

lemma closes_map_Close: "closes (map Close es) = es"
  by (induction es) auto

lemma emitted_map_Close: "emitted (map Close es) = []"
  by (induction es) auto

lemma teardown_map_Close: "teardown (map Close es) = map Close es"
  by (induction es) (auto simp: teardown_def)

lemma written_to_map_Close: "written_to (map Close es) = []"
  by (simp add: written_to_def written_map_Close)

lemma no_write_after_close_map_Close: "no_write_after_close (map Close es)"
  by (induction es) (auto simp: written_to_map_Close)

lemma written_write_elements: "written (write_elements errs s es) = map (\<lambda>e. (e, s)) es"
  by (induction es) (auto split: option.splits)

lemma written_to_write_elements: "written_to (write_elements errs s es) = es"
  by (simp add: written_to_def written_write_elements comp_def)

lemma closes_write_elements: "closes (write_elements errs s es) = []"
  by (induction es) (auto split: option.splits)

lemma emitted_write_elements: "emitted (write_elements errs s es) = []"
  by (induction es) (auto split: option.splits)

lemma teardown_write_elements: "teardown (write_elements errs s es) = []"
  by (induction es) (auto simp: teardown_def split: option.splits)

lemma write_errors_write_elements:
  "write_errors (write_elements errs s es) = List.map_filter errs es"
  by (induction es) (auto simp: List.map_filter_simps split: option.splits)

lemma no_write_after_close_write_elements:
  "no_write_after_close (write_elements errs s es)"
  by (induction es) (auto split: option.splits)

lemma written_to_single [simp]:
  "written_to [] = []"
  "written_to [Push p] = []" "written_to [Enqueued x] = []" "written_to [LogReadError m] = []"
  "written_to [Received x] = []"
  by (simp_all add: written_to_def)

lemma stop_events_simps:
  "written (stop_events b) = []"
  "written_to (stop_events b) = []"
  "closes (stop_events b) = elements b"
  "emitted (stop_events b) = []"
  "teardown (stop_events b) = stop_events b"
  "no_write_after_close (stop_events b)"
  by (auto simp: stop_events_def written_to_def written_append closes_append emitted_append teardown_append
      written_map_Close closes_map_Close emitted_map_Close teardown_map_Close
      no_write_after_close_append no_write_after_close_map_Close teardown_def
      split: option.splits)

lemma stop_eq:
  "stop b = (if stopped b then b
     else b\<lparr> stopped := True, out_closed := True, events := events b @ stop_events b \<rparr>)"
  by (simp add: stop_def stop_events_def)

lemmas log_simps = written_append written_to_append written_to_write_elements closes_append emitted_append teardown_append
  write_errors_append no_write_after_close_append stop_events_simps
  written_write_elements closes_write_elements emitted_write_elements
  teardown_write_elements no_write_after_close_write_elements

lemma teardown_single [simp]:
  "teardown [] = []"
  "teardown [Push p] = []" "teardown [Enqueued x] = []" "teardown [LogReadError m] = []"
  "teardown [Received x] = []"
  by (simp_all add: teardown_def)

subsection \<open>One step\<close>

lemma step_stopped: "stopped b \<Longrightarrow> step a b = Inr b' \<Longrightarrow> stopped b'"
  by (cases a) (auto simp: step_defs Let_def split: step_splits)

lemma step_events_extend: "step a b = Inr b' \<Longrightarrow> \<exists>new. events b' = events b @ new"
  by (cases a) (auto simp: step_defs Let_def split: step_splits)

lemma step_elements_extend: "step a b = Inr b' \<Longrightarrow> \<exists>new. elements b' = elements b @ new"
  by (cases a) (auto simp: step_defs Let_def split: step_splits)

lemma step_after_stop:
  "stopped b \<Longrightarrow> step a b = Inr b' \<Longrightarrow>
     written (events b') = written (events b) \<and> written_to (events b') = written_to (events b)
     \<and> closes (events b') = closes (events b)
     \<and> teardown (events b') = teardown (events b)"
  by (cases a) (auto simp: step_defs Let_def log_simps split: step_splits)

lemma step_before_stop:
  "\<not> stopped b \<Longrightarrow> step a b = Inr b' \<Longrightarrow>
     (\<not> stopped b' \<and> teardown (events b') = teardown (events b)) \<or>
     (stopped b' \<and> out_closed b' \<and> teardown (events b') = teardown (events b) @ stop_events b)"
  by (cases a) (auto simp: stop_eq step_defs Let_def log_simps split: step_splits)

lemma step_close_inv: "close_inv b \<Longrightarrow> step a b = Inr b' \<Longrightarrow> close_inv b'"
  by (cases a) (auto simp: close_inv_def stop_eq step_defs Let_def log_simps split: step_splits)

lemma step_attached_inv: "attached_inv b \<Longrightarrow> step a b = Inr b' \<Longrightarrow> attached_inv b'"
  by (cases a)
    (auto simp: attached_inv_def image_subset_iff stop_eq step_defs Let_def log_simps
      split: step_splits)

lemma step_sequence_inv: "sequence_inv b \<Longrightarrow> step a b = Inr b' \<Longrightarrow> sequence_inv b'"
  by (cases a) (auto simp: sequence_inv_def stop_eq step_defs Let_def log_simps split: step_splits)

lemma step_closed_inv: "closed_inv b \<Longrightarrow> step a b = Inr b' \<Longrightarrow> closed_inv b'"
  by (cases a) (auto simp: closed_inv_def stop_eq step_defs Let_def log_simps split: step_splits)

lemma NewBuilder_simps:
  "stopped (NewBuilder c t m) = False"
  "onStopHandler (NewBuilder c t m) = None"
  "elements (NewBuilder c t m) = []"
  "sequence (NewBuilder c t m) = 0"
  "track (NewBuilder c t m) = t"
  "out (NewBuilder c t m) = []"
  "out_closed (NewBuilder c t m) = False"
  "build_pc (NewBuilder c t m) = BCheckStop"
  "forward_pc (NewBuilder c t m) = FReceive"
  "events (NewBuilder c t m) = []"
  by (simp_all add: NewBuilder_def Let_def split: prod.splits)

lemma step_out_closed: "out_closed b \<Longrightarrow> step a b = Inr b' \<Longrightarrow> out_closed b'"
  by (cases a) (auto simp: step_defs Let_def split: step_splits)

subsection \<open>Schedules\<close>

lemma run_stopped: "run as b = Inr b' \<Longrightarrow> stopped b \<Longrightarrow> stopped b'"
  by (erule run_invariant [where P = stopped]) (auto intro: step_stopped)

lemma run_out_closed: "run as b = Inr b' \<Longrightarrow> out_closed b \<Longrightarrow> out_closed b'"
  by (erule run_invariant [where P = out_closed]) (auto intro: step_out_closed)

lemma run_events_extend: "run as b = Inr b' \<Longrightarrow> \<exists>new. events b' = events b @ new"
proof (induction as arbitrary: b)
  case Nil
  then show ?case by simp
next
  case (Cons a as)
  then obtain b1 where 1: "step a b = Inr b1" and 2: "run as b1 = Inr b'"
    by (auto split: sum.splits)
  from step_events_extend [OF 1] Cons.IH [OF 2] show ?case
    by auto
qed

lemma run_elements_extend: "run as b = Inr b' \<Longrightarrow> \<exists>new. elements b' = elements b @ new"
proof (induction as arbitrary: b)
  case Nil
  then show ?case by simp
next
  case (Cons a as)
  then obtain b1 where 1: "step a b = Inr b1" and 2: "run as b1 = Inr b'"
    by (auto split: sum.splits)
  from step_elements_extend [OF 1] Cons.IH [OF 2] show ?case
    by auto
qed

lemma run_after_stop:
  "stopped b \<Longrightarrow> run as b = Inr b' \<Longrightarrow>
     written (events b') = written (events b) \<and> written_to (events b') = written_to (events b)
     \<and> closes (events b') = closes (events b)
     \<and> teardown (events b') = teardown (events b)"
proof (induction as arbitrary: b)
  case Nil
  then show ?case by simp
next
  case (Cons a as)
  then obtain b1 where 1: "step a b = Inr b1" and 2: "run as b1 = Inr b'"
    by (auto split: sum.splits)
  from step_stopped [OF Cons.prems(1) 1] have "stopped b1" .
  from Cons.IH [OF this 2] step_after_stop [OF Cons.prems(1) 1] show ?case
    by simp
qed

lemma run_teardown:
  "run as b = Inr b' \<Longrightarrow> \<not> stopped b \<Longrightarrow>
     (if stopped b' then
        out_closed b' \<and>
        (\<exists>as1 a as2 b1. as = as1 @ a # as2 \<and> run as1 b = Inr b1 \<and> \<not> stopped b1 \<and>
           teardown (events b') = teardown (events b) @ stop_events b1)
      else teardown (events b') = teardown (events b))"
proof (induction as arbitrary: b)
  case Nil
  then show ?case by simp
next
  case (Cons a as)
  then obtain b1 where 1: "step a b = Inr b1" and 2: "run as b1 = Inr b'"
    by (auto split: sum.splits)
  show ?case
  proof (cases "stopped b1")
    case True
    with step_before_stop [OF Cons.prems(2) 1]
    have t: "teardown (events b1) = teardown (events b) @ stop_events b" and c: "out_closed b1"
      by auto
    from run_stopped [OF 2 True] have s: "stopped b'" .
    from run_after_stop [OF True 2] t
    have "teardown (events b') = teardown (events b) @ stop_events b"
      by simp
    moreover have "a # as = [] @ a # as \<and> run [] b = Inr b"
      by simp
    ultimately show ?thesis
      using s Cons.prems(2) run_out_closed [OF 2 c] by force
  next
    case False
    with step_before_stop [OF Cons.prems(2) 1]
    have t: "teardown (events b1) = teardown (events b)"
      by auto
    show ?thesis
    proof (cases "stopped b'")
      case True
      with Cons.IH [OF 2 False] obtain as1 a' as2 b2
        where oc: "out_closed b'" and *: "as = as1 @ a' # as2" "run as1 b1 = Inr b2" "\<not> stopped b2"
          "teardown (events b') = teardown (events b1) @ stop_events b2"
        by auto
      from * 1 have "a # as = (a # as1) @ a' # as2 \<and> run (a # as1) b = Inr b2"
        by simp
      with * t True oc show ?thesis
        by (metis (no_types, lifting))
    next
      case no: False
      with Cons.IH [OF 2 False] t show ?thesis
        by simp
    qed
  qed
qed

lemma run_close_inv:
  assumes "run as (NewBuilder c t m) = Inr b"
  shows "close_inv b"
proof (rule run_invariant [OF assms])
  show "close_inv (NewBuilder c t m)"
    by (simp add: close_inv_def NewBuilder_simps)
qed (rule step_close_inv)

lemma run_attached_inv:
  assumes "run as (NewBuilder c t m) = Inr b"
  shows "attached_inv b"
proof (rule run_invariant [OF assms])
  show "attached_inv (NewBuilder c t m)"
    by (simp add: attached_inv_def NewBuilder_simps)
qed (rule step_attached_inv)

lemma run_sequence_inv:
  assumes "run as (NewBuilder c t m) = Inr b"
  shows "sequence_inv b"
proof (rule run_invariant [OF assms])
  show "sequence_inv (NewBuilder c t m)"
    by (simp add: sequence_inv_def NewBuilder_simps)
qed (rule step_sequence_inv)

lemma run_closed_inv:
  assumes "run as (NewBuilder c t m) = Inr b"
  shows "closed_inv b"
proof (rule run_invariant [OF assms])
  show "closed_inv (NewBuilder c t m)"
    by (simp add: closed_inv_def NewBuilder_simps)
qed (rule step_closed_inv)

lemmas example_defs = example_names_def example_track_def example_packet_def
  NewBuilder_def select_codec_def New_def maxSize_def

lemmas run_defs = example_defs step_defs Let_def

lemmas schedule_defs = two_stops_def one_sample_def sample0_def sample1_def

lemma Write_in_written_to: "Write e s \<in> set evs \<Longrightarrow> e \<in> set (written_to evs)"
  by (induction evs rule: written.induct) (auto simp: written_to_def)

lemma Close_in_closes: "Close e \<in> set evs \<Longrightarrow> e \<in> set (closes evs)"
  by (induction evs rule: closes.induct) auto

lemma no_write_after_close_split:
  "no_write_after_close evs \<Longrightarrow> evs = xs @ Close e # ys \<Longrightarrow> e \<notin> set (written_to ys)"
  by (simp add: no_write_after_close_append)

subsection \<open>The order of dispatch\<close>

lemma received_append: "received (xs @ ys) = received xs @ received ys"
  by (induction xs rule: received.induct) auto

lemma deliveries_append:
  "deliveries n (xs @ ys) = deliveries n xs @ deliveries (n + length (received xs)) ys"
  by (induction n xs rule: deliveries.induct) auto

lemma received_map_Close: "received (map Close es) = []"
  by (induction es) auto

lemma deliveries_map_Close: "deliveries n (map Close es) = []"
  by (induction es) auto

lemma received_write_elements: "received (write_elements errs s es) = []"
  by (induction es) (auto split: option.splits)

lemma deliveries_write_elements:
  "deliveries n (write_elements errs s es) = map (\<lambda>e. (e, n - 1, s)) es"
  by (induction es) (auto split: option.splits)

lemma received_stop_events: "received (stop_events b) = []"
  by (auto simp: stop_events_def received_append received_map_Close split: option.splits)

lemma deliveries_stop_events: "deliveries n (stop_events b) = []"
  by (auto simp: stop_events_def deliveries_append deliveries_map_Close received_map_Close
      split: option.splits)

lemma closes_teardown: "closes (teardown evs) = closes evs"
  by (induction evs rule: closes.induct) (auto simp: teardown_def)

lemma deliveries_lower: "(e, k, s) \<in> set (deliveries n evs) \<Longrightarrow> n - 1 \<le> k"
  by (induction n evs rule: deliveries.induct) auto

lemma delivered_written_to:
  "(e, k, s) \<in> set (deliveries n evs) \<Longrightarrow> e \<in> set (written_to evs)"
  by (induction n evs rule: deliveries.induct) (auto simp: written_to_def)

lemmas dispatch_simps = received_append deliveries_append received_write_elements
  deliveries_write_elements received_stop_events deliveries_stop_events

lemma step_dispatch_inv: "dispatch_inv b \<Longrightarrow> step a b = Inr b' \<Longrightarrow> dispatch_inv b'"
  by (cases a)
    (auto simp: dispatch_inv_def stop_eq step_defs Let_def log_simps dispatch_simps nth_append
      last_conv_nth split: step_splits, (blast intro: less_SucI)+)

lemma run_dispatch_inv:
  assumes "run as (NewBuilder c t m) = Inr b"
  shows "dispatch_inv b"
proof (rule run_invariant [OF assms])
  show "dispatch_inv (NewBuilder c t m)"
    by (simp add: dispatch_inv_def NewBuilder_simps)
qed (rule step_dispatch_inv)

lemma run_keeps_dispatch_inv: "run as b = Inr b' \<Longrightarrow> dispatch_inv b \<Longrightarrow> dispatch_inv b'"
  by (erule run_invariant) (auto intro: step_dispatch_inv)

lemma step_completed:
  "dispatch_inv b \<Longrightarrow> step a b = Inr b' \<Longrightarrow>
     \<exists>new. events b' = events b @ new
       \<and> (\<forall>e k s. (e, k, s) \<in> set (deliveries (length (received (events b))) new)
             \<longrightarrow> completed b \<le> k)
       \<and> completed b \<le> completed b'"
  by (cases a)
    (auto simp: dispatch_inv_def completed_def stop_eq step_defs Let_def dispatch_simps
      split: step_splits)

lemma run_completed:
  "run as b = Inr b' \<Longrightarrow> dispatch_inv b \<Longrightarrow>
     \<exists>new. events b' = events b @ new
       \<and> (\<forall>e k s. (e, k, s) \<in> set (deliveries (length (received (events b))) new)
             \<longrightarrow> completed b \<le> k)
       \<and> completed b \<le> completed b'"
proof (induction as arbitrary: b)
  case Nil
  then show ?case by simp
next
  case (Cons a as)
  then obtain b1 where 1: "step a b = Inr b1" and 2: "run as b1 = Inr b'"
    by (auto split: sum.splits)
  from step_completed [OF Cons.prems(2) 1] obtain new1
    where n1: "events b1 = events b @ new1"
      "\<forall>e k s. (e, k, s) \<in> set (deliveries (length (received (events b))) new1)
         \<longrightarrow> completed b \<le> k"
      "completed b \<le> completed b1"
    by blast
  from step_dispatch_inv [OF Cons.prems(2) 1] have i1: "dispatch_inv b1" .
  from Cons.IH [OF 2 i1] obtain new2
    where n2: "events b' = events b1 @ new2"
      "\<forall>e k s. (e, k, s) \<in> set (deliveries (length (received (events b1))) new2)
         \<longrightarrow> completed b1 \<le> k"
      "completed b1 \<le> completed b'"
    by blast
  have "events b' = events b @ (new1 @ new2)"
    using n1(1) n2(1) by simp
  moreover have "\<forall>e k s. (e, k, s) \<in> set (deliveries (length (received (events b))) (new1 @ new2))
         \<longrightarrow> completed b \<le> k"
  proof (intro allI impI)
    fix e k s
    assume "(e, k, s) \<in> set (deliveries (length (received (events b))) (new1 @ new2))"
    then consider "(e, k, s) \<in> set (deliveries (length (received (events b))) new1)"
      | "(e, k, s) \<in> set (deliveries (length (received (events b1))) new2)"
      by (auto simp: deliveries_append received_append n1(1))
    then show "completed b \<le> k"
    proof cases
      case 1
      with n1(2) show ?thesis by blast
    next
      case 2
      with n2(2) have "completed b1 \<le> k" by blast
      with n1(3) show ?thesis by simp
    qed
  qed
  moreover have "completed b \<le> completed b'"
    using n1(3) n2(3) by simp
  ultimately show ?case
    by blast
qed

subsection \<open>Rounds of both goroutines\<close>

lemma cycle_run:
  assumes "idle b"
  shows "\<exists>b'. run cycle b = Inr b' \<and> idle b'
     \<and> length (emitted (events b')) = Suc (length (emitted (events b)))"
  using assms
  by (simp add: idle_def cycle_def step_defs Let_def maxSize_def emitted_append
      emitted_write_elements)

lemma cycles_run:
  "idle b \<Longrightarrow> \<exists>b'. run (concat (replicate n cycle)) b = Inr b' \<and> idle b'
     \<and> length (emitted (events b')) = length (emitted (events b)) + n"
proof (induction n arbitrary: b)
  case 0
  then show ?case by simp
next
  case (Suc n)
  from cycle_run [OF Suc.prems] obtain b1 where 1: "run cycle b = Inr b1" "idle b1"
    "length (emitted (events b1)) = Suc (length (emitted (events b)))"
    by blast
  from Suc.IH [OF 1(2)] obtain b' where 2: "run (concat (replicate n cycle)) b1 = Inr b'"
    "idle b'" "length (emitted (events b')) = length (emitted (events b1)) + n"
    by blast
  from 1 2 show ?case
    by (simp add: run_append)
qed

lemma nth_sequence_numbers:
  assumes "map SequenceNumber xs = map word_of_nat [0..<length xs]" and "k < length xs"
  shows "SequenceNumber (xs ! k) = word_of_nat k"
proof -
  from assms(2) have "SequenceNumber (xs ! k) = map SequenceNumber xs ! k"
    by simp
  also have "\<dots> = map word_of_nat [0..<length xs] ! k"
    by (simp only: assms(1))
  also from assms(2) have "\<dots> = word_of_nat k"
    by simp
  finally show ?thesis .
qed

section \<open>The claims\<close>

subsection \<open>C1: teardown happens once\<close>

text \<open>
  C1, as the code has it. \<open>stop\<close> on a stopped builder changes nothing. On a builder
  that is not stopped it sets \<open>stopped\<close>, calls \<open>Close\<close> once for every entry of
  \<open>elements\<close>, in the order of attachment, then calls the stop handler if one is
  registered, then closes the channel \<open>out\<close>. Along any schedule from \<open>NewBuilder\<close>,
  however often and from whichever goroutine \<open>stop\<close> is called (by \<open>build\<close> at the
  end of the stream, by another caller), the teardown events of the whole log are the
  events of exactly one such call: those of the first call, taken in the state \<open>b1\<close> it
  found. An element is closed as many times as it was attached by then: once when it was
  attached once.
\<close>

theorem stop_once_per_attachment:
  assumes "run as (NewBuilder c t m) = Inr b"
  shows "stop (stop b) = stop b
    \<and> (stopped b \<longrightarrow> stop b = b)
    \<and> (\<not> stopped b \<longrightarrow>
          teardown (events b) = [] \<and>
          stop b = b\<lparr> stopped := True, out_closed := True,
                      events := events b @ map Close (elements b)
                        @ (case onStopHandler b of None \<Rightarrow> [] | Some f \<Rightarrow> [StopHandler f])
                        @ [CloseOut] \<rparr>)
    \<and> (stopped b \<longrightarrow>
          out_closed b \<and>
          (\<exists>as1 a as2 b1. as = as1 @ a # as2 \<and> run as1 (NewBuilder c t m) = Inr b1
             \<and> \<not> stopped b1
             \<and> teardown (events b) = map Close (elements b1)
                  @ (case onStopHandler b1 of None \<Rightarrow> [] | Some f \<Rightarrow> [StopHandler f])
                  @ [CloseOut]
             \<and> closes (events b) = elements b1
             \<and> (\<forall>e. count_list (closes (events b)) e = count_list (elements b1) e)))"
proof -
  have n: "\<not> stopped (NewBuilder c t m)" "teardown (events (NewBuilder c t m)) = []"
    by (simp_all add: NewBuilder_simps)
  note t = run_teardown [OF assms n(1), unfolded n(2) append_Nil]
  have 1: "stop (stop b) = stop b" and 2: "stopped b \<longrightarrow> stop b = b"
    by (simp_all add: stop_def)
  have 3: "\<not> stopped b \<longrightarrow>
          teardown (events b) = [] \<and>
          stop b = b\<lparr> stopped := True, out_closed := True,
                      events := events b @ map Close (elements b)
                        @ (case onStopHandler b of None \<Rightarrow> [] | Some f \<Rightarrow> [StopHandler f])
                        @ [CloseOut] \<rparr>"
    using t by (simp add: stop_def)
  have 4: "stopped b \<longrightarrow>
          out_closed b \<and>
          (\<exists>as1 a as2 b1. as = as1 @ a # as2 \<and> run as1 (NewBuilder c t m) = Inr b1
             \<and> \<not> stopped b1
             \<and> teardown (events b) = map Close (elements b1)
                  @ (case onStopHandler b1 of None \<Rightarrow> [] | Some f \<Rightarrow> [StopHandler f])
                  @ [CloseOut]
             \<and> closes (events b) = elements b1
             \<and> (\<forall>e. count_list (closes (events b)) e = count_list (elements b1) e))"
  proof
    assume "stopped b"
    with t obtain as1 a as2 b1 where oc: "out_closed b"
      and *: "as = as1 @ a # as2" "run as1 (NewBuilder c t m) = Inr b1" "\<not> stopped b1"
        "teardown (events b) = stop_events b1"
      by auto
    from *(4) have "closes (teardown (events b)) = closes (stop_events b1)"
      by simp
    then have c: "closes (events b) = elements b1"
      by (simp add: closes_teardown stop_events_simps)
    from * c oc show "out_closed b \<and>
          (\<exists>as1 a as2 b1. as = as1 @ a # as2 \<and> run as1 (NewBuilder c t m) = Inr b1
             \<and> \<not> stopped b1
             \<and> teardown (events b) = map Close (elements b1)
                  @ (case onStopHandler b1 of None \<Rightarrow> [] | Some f \<Rightarrow> [StopHandler f])
                  @ [CloseOut]
             \<and> closes (events b) = elements b1
             \<and> (\<forall>e. count_list (closes (events b)) e = count_list (elements b1) e))"
      unfolding stop_events_def by auto
  qed
  from 1 2 3 4 show ?thesis
    by blast
qed

text \<open>
  Two elements and a handler, then \<open>stop\<close> from outside, from \<open>build\<close> at the end of
  the stream and from outside again: one teardown.
\<close>

theorem stop_once_per_attachment_witness:
  "\<exists>b0 b. run [DoAttachElement 1] (NewBuilder example_names example_track 50) = Inr b0
     \<and> \<not> stopped b0 \<and> teardown (events b0) = []
     \<and> run two_stops (NewBuilder example_names example_track 50) = Inr b
     \<and> stopped b \<and> stop b = b \<and> out_closed b
     \<and> teardown (events b) = [Close 1, Close 2, StopHandler 7, CloseOut]
     \<and> (\<exists>as1 a as2 b1. two_stops = as1 @ a # as2
           \<and> run as1 (NewBuilder example_names example_track 50) = Inr b1 \<and> \<not> stopped b1
           \<and> teardown (events b) = map Close (elements b1)
                @ (case onStopHandler b1 of None \<Rightarrow> [] | Some f \<Rightarrow> [StopHandler f])
                @ [CloseOut]
           \<and> closes (events b) = elements b1)"
proof -
  obtain b0 where r0: "run [DoAttachElement 1] (NewBuilder example_names example_track 50) = Inr b0"
    by simp
  have s0: "\<not> stopped b0"
    using r0 by (auto simp: run_defs)
  obtain b where r: "run two_stops (NewBuilder example_names example_track 50) = Inr b"
    by (simp add: schedule_defs run_defs)
  have s: "stopped b" and t: "teardown (events b) = [Close 1, Close 2, StopHandler 7, CloseOut]"
    using r by (auto simp: schedule_defs run_defs teardown_def)
  from stop_once_per_attachment [OF r0] stop_once_per_attachment [OF r] r0 s0 r s t show ?thesis
    by metis
qed

text \<open>
  C1, as it is stated, fails: \<open>AttachElement\<close> appends without looking, and an element
  that was attached twice is closed twice by the one teardown.
\<close>

theorem stage_attached_twice_closed_twice:
  "(case run [DoAttachElement 1, DoAttachElement 1, DoStop]
          (NewBuilder example_names example_track 50) of
      Inl f \<Rightarrow> False
    | Inr b \<Rightarrow> elements b = [1, 1] \<and> events b = [Close 1, Close 1, CloseOut]
        \<and> count_list (closes (events b)) 1 = 2)"
  by (simp add: run_defs)

subsection \<open>C2: the sequence numbers of the samples\<close>

text \<open>
  C2, as the code has it. The samples handed to the channel carry the numbers 0, 1, 2
  and so on in 16 bits: the sample of index \<open>k\<close> carries \<open>k mod 65536\<close>, each number is
  the one before plus 1 with wrap-around, and \<open>sequence\<close> is the number of samples sent
  so far, in 16 bits.
\<close>

theorem sequence_numbers_count_modulo:
  assumes "run as (NewBuilder c t m) = Inr b"
  shows "sequence b = word_of_nat (length (emitted (events b)))
    \<and> (\<forall>k < length (emitted (events b)).
          unat (SequenceNumber (emitted (events b) ! k)) = k mod 65536)
    \<and> (\<forall>k. Suc k < length (emitted (events b)) \<longrightarrow>
          SequenceNumber (emitted (events b) ! Suc k)
            = SequenceNumber (emitted (events b) ! k) + 1)"
proof -
  from run_sequence_inv [OF assms]
  have s: "sequence b = word_of_nat (length (emitted (events b)))"
    and m: "map SequenceNumber (emitted (events b))
      = map word_of_nat [0..<length (emitted (events b))]"
    by (simp_all add: sequence_inv_def)
  have n: "SequenceNumber (emitted (events b) ! k) = word_of_nat k"
    if "k < length (emitted (events b))" for k
    using nth_sequence_numbers [OF m that] .
  have "unat (SequenceNumber (emitted (events b) ! k)) = k mod 65536"
    if "k < length (emitted (events b))" for k
    by (simp add: n [OF that] unat_of_nat)
  moreover have "SequenceNumber (emitted (events b) ! Suc k)
      = SequenceNumber (emitted (events b) ! k) + 1"
    if "Suc k < length (emitted (events b))" for k
    using that by (simp add: n)
  ultimately show ?thesis
    using s by blast
qed

theorem sequence_numbers_count_modulo_witness:
  "\<exists>b. run (concat (replicate 3 cycle)) (NewBuilder example_names example_track 50) = Inr b
     \<and> length (emitted (events b)) = 3
     \<and> sequence b = 3
     \<and> (\<forall>k<3. unat (SequenceNumber (emitted (events b) ! k)) = k)
     \<and> (\<forall>k<2. SequenceNumber (emitted (events b) ! Suc k)
           = SequenceNumber (emitted (events b) ! k) + 1)"
proof -
  have "idle (NewBuilder example_names example_track 50)"
    by (simp add: idle_def NewBuilder_simps)
  from cycles_run [OF this, of 3] obtain b
    where r: "run (concat (replicate 3 cycle)) (NewBuilder example_names example_track 50) = Inr b"
      and l: "length (emitted (events b)) = 3"
    by (auto simp: NewBuilder_simps)
  from sequence_numbers_count_modulo [OF r] r l show ?thesis
    by simp
qed

text \<open>
  C2, as it is stated, fails: after 65536 samples the counter is 0 again. In the run of
  65537 rounds, each reading one packet that completes one sample, the sample of index
  65535 carries 65535 and the next one carries 0, which is not greater.
\<close>

theorem sequence_number_wraps:
  "(case run (concat (replicate 65537 cycle)) (NewBuilder example_names example_track 50) of
      Inl f \<Rightarrow> False
    | Inr b \<Rightarrow> length (emitted (events b)) = 65537
        \<and> SequenceNumber (emitted (events b) ! 65535) = 65535
        \<and> SequenceNumber (emitted (events b) ! 65536) = 0
        \<and> \<not> SequenceNumber (emitted (events b) ! 65535)
              < SequenceNumber (emitted (events b) ! 65536))"
proof -
  have "idle (NewBuilder example_names example_track 50)"
    by (simp add: idle_def NewBuilder_simps)
  from cycles_run [OF this, of 65537] obtain b
    where r: "run (concat (replicate 65537 cycle)) (NewBuilder example_names example_track 50) = Inr b"
      and l: "length (emitted (events b)) = 0 + 65537"
    by (auto simp only: NewBuilder_simps emitted.simps list.size)
  from l have l': "length (emitted (events b)) = 65537"
    by (simp only: add_0)
  from run_sequence_inv [OF r]
  have m: "map SequenceNumber (emitted (events b))
      = map word_of_nat [0..<length (emitted (events b))]"
    by (simp add: sequence_inv_def)
  have a: "SequenceNumber (emitted (events b) ! 65535) = word_of_nat 65535"
    by (rule nth_sequence_numbers [OF m]) (simp add: l')
  have b: "SequenceNumber (emitted (events b) ! 65536) = word_of_nat 65536"
    by (rule nth_sequence_numbers [OF m]) (simp add: l')
  have "SequenceNumber (emitted (events b) ! 65535) = 65535"
    "SequenceNumber (emitted (events b) ! 65536) = 0"
    unfolding a b by simp_all
  with l' show ?thesis
    unfolding r by simp
qed

subsection \<open>C3: the depacketizer of an unknown codec\<close>

lemma select_codec_unknown:
  "name \<notin> {Opus c, VP8 c, VP9 c, H264 c} \<Longrightarrow> select_codec c name = (None, None)"
  by (simp add: select_codec_def)

text \<open>
  C3. The claim: for a codec name outside the four known ones, \<open>NewBuilder\<close> binds a
  depacketizer that passes packets through unchanged, never a nil one. The switch has no
  default case: for the track of codec \<open>PCMU\<close> the depacketizer handed to
  \<open>samplebuilder.New\<close> is nil, and so is the partition head checker.
\<close>

theorem unknown_codec_nil_depacketizer:
  "depacketizer (builder (NewBuilder example_names
      \<lparr> CodecName = ''PCMU'', CodecType = 1, ID = ''audio'' \<rparr> 50)) = None
   \<and> partitionHeadChecker (builder (NewBuilder example_names
      \<lparr> CodecName = ''PCMU'', CodecType = 1, ID = ''audio'' \<rparr> 50)) = None"
  by (simp add: example_defs)

subsection \<open>C4: sending on the closed channel\<close>

text \<open>
  C4. The claim: no interleaving of \<open>build\<close> and the teardown sends a sample on the
  channel after the teardown closed it, or such a send does nothing. \<open>build\<close> reads
  \<open>stopped\<close> in lines 117 to 122 and releases \<open>mu\<close> before it sends in line 128. In the
  schedule below \<open>build\<close> has popped a sample and seen \<open>stopped = false\<close>, another
  goroutine calls \<open>stop\<close>, which closes \<open>out\<close>, and the send of \<open>build\<close> panics.
\<close>

theorem send_on_closed_channel:
  "run [BuildStep, BuildRead (Pkt example_packet), BuildPop (Some ([9], 5)), BuildStep,
        DoStop, BuildStep]
     (NewBuilder example_names example_track 50) = Inl SendOnClosedChannel"
  by (simp add: run_defs)

subsection \<open>C5: no write after close\<close>

text \<open>
  C5. In the log of any schedule from \<open>NewBuilder\<close>, no \<open>Write\<close> on an element comes
  after a \<open>Close\<close> on that element. When \<open>forward\<close> finds \<open>stopped\<close> set in its
  locked section it writes nothing and returns, and a returned \<open>forward\<close> takes no
  further step.
\<close>

theorem never_written_after_close:
  assumes "run as (NewBuilder c t m) = Inr b"
  shows "(\<forall>xs e ys s. events b = xs @ Close e # ys \<longrightarrow> Write e s \<notin> set ys)
    \<and> (\<forall>s errs. stopped b \<and> forward_pc b = FWrite s \<longrightarrow>
          step (ForwardWrite errs) b = Inr (b\<lparr> forward_pc := FReturned \<rparr>))
    \<and> (forward_pc b = FReturned \<longrightarrow>
          step ForwardReceive b = Inl NotEnabled
          \<and> (\<forall>errs. step (ForwardWrite errs) b = Inl NotEnabled))"
proof -
  from run_close_inv [OF assms] have "no_write_after_close (events b)"
    by (simp add: close_inv_def)
  then have "\<forall>xs e ys s. events b = xs @ Close e # ys \<longrightarrow> Write e s \<notin> set ys"
    using no_write_after_close_split Write_in_written_to by blast
  then show ?thesis
    by (simp add: forward_write_def forward_receive_def)
qed

text \<open>
  One sample is written to element 1, a second one is received by \<open>forward\<close>, then the
  builder is stopped: the second sample is not written, and \<open>forward\<close> returns.
\<close>

theorem never_written_after_close_witness:
  "\<exists>b b'. run (DoAttachElement 1 # one_sample @ [ForwardWrite (\<lambda>e. None),
          BuildPop (Some ([8], 6)), BuildStep, BuildStep, ForwardReceive, DoStop])
        (NewBuilder example_names example_track 50) = Inr b
    \<and> events b = [Push example_packet, Enqueued sample0, Received sample0,
          Write 1 (Some sample0), Enqueued sample1, Received sample1] @ Close 1 # [CloseOut]
    \<and> Write 1 (Some sample1) \<notin> set [CloseOut]
    \<and> stopped b \<and> forward_pc b = FWrite (Some sample1)
    \<and> step (ForwardWrite (\<lambda>e. None)) b = Inr (b\<lparr> forward_pc := FReturned \<rparr>)
    \<and> run (DoAttachElement 1 # one_sample @ [ForwardWrite (\<lambda>e. None),
          BuildPop (Some ([8], 6)), BuildStep, BuildStep, ForwardReceive, DoStop,
          ForwardWrite (\<lambda>e. None)])
        (NewBuilder example_names example_track 50) = Inr b'
    \<and> forward_pc b' = FReturned
    \<and> step ForwardReceive b' = Inl NotEnabled"
proof -
  obtain b where r: "run (DoAttachElement 1 # one_sample @ [ForwardWrite (\<lambda>e. None),
          BuildPop (Some ([8], 6)), BuildStep, BuildStep, ForwardReceive, DoStop])
        (NewBuilder example_names example_track 50) = Inr b"
    by (simp add: schedule_defs run_defs)
  have e: "events b = [Push example_packet, Enqueued sample0, Received sample0,
          Write 1 (Some sample0), Enqueued sample1, Received sample1] @ Close 1 # [CloseOut]"
    and s: "stopped b" and f: "forward_pc b = FWrite (Some sample1)"
    using r by (auto simp: schedule_defs run_defs)
  obtain b' where r': "run (DoAttachElement 1 # one_sample @ [ForwardWrite (\<lambda>e. None),
          BuildPop (Some ([8], 6)), BuildStep, BuildStep, ForwardReceive, DoStop,
          ForwardWrite (\<lambda>e. None)])
        (NewBuilder example_names example_track 50) = Inr b'"
    by (simp add: schedule_defs run_defs)
  have f': "forward_pc b' = FReturned"
    using r' by (auto simp: schedule_defs run_defs)
  from never_written_after_close [OF r] never_written_after_close [OF r'] r e s f r' f'
  show ?thesis
    by blast
qed

subsection \<open>C6: the flag stopped never reverts\<close>

text \<open>
  C6. Whatever the schedule of operations (attaching an element, registering a stop
  handler, steps of \<open>build\<close> and of \<open>forward\<close>, \<open>stop\<close>, \<open>stats\<close>), a builder that
  is stopped is still stopped afterwards.
\<close>

theorem stopped_monotone:
  "run as b = Inr b' \<Longrightarrow> stopped b \<Longrightarrow> stopped b'"
  by (erule run_invariant [where P = stopped]) (auto intro: step_stopped)

theorem stopped_monotone_witness:
  "\<exists>b b'. run [DoStop] (NewBuilder example_names example_track 50) = Inr b \<and> stopped b
     \<and> run [DoAttachElement 1, DoOnStop (Some 7), BuildStep, ForwardReceive,
             ForwardWrite (\<lambda>e. None), DoStop, DoStats] b = Inr b' \<and> stopped b'"
proof -
  obtain b where 1: "run [DoStop] (NewBuilder example_names example_track 50) = Inr b"
    by simp
  have 2: "stopped b"
    using 1 by (auto simp: run_defs)
  obtain b' where 3: "run [DoAttachElement 1, DoOnStop (Some 7), BuildStep, ForwardReceive,
             ForwardWrite (\<lambda>e. None), DoStop, DoStats] b = Inr b'"
    using 1 by (auto simp: run_defs)
  from stopped_monotone [OF 3 2] 1 2 3 show ?thesis
    by blast
qed

subsection \<open>C7: errors of ReadRTP\<close>

text \<open>
  C7. With \<open>build\<close> at the call of \<open>ReadRTP\<close>: on \<open>io.EOF\<close> it calls \<open>stop\<close> and
  returns, after which it takes no step, whatever the environment offers; on any other
  error it logs the error and goes back to the top of its loop with nothing else
  changed, and, the builder not being stopped, it is at the call of \<open>ReadRTP\<close> again.
\<close>

theorem read_error_policy:
  assumes "build_pc b = BReadRTP"
  shows "run [BuildRead EOF, BuildStep] b = Inr ((stop b)\<lparr> build_pc := BReturned \<rparr>)
    \<and> stopped ((stop b)\<lparr> build_pc := BReturned \<rparr>)
    \<and> step BuildStep ((stop b)\<lparr> build_pc := BReturned \<rparr>) = Inl NotEnabled
    \<and> step (BuildRead r) ((stop b)\<lparr> build_pc := BReturned \<rparr>) = Inl NotEnabled
    \<and> step (BuildPop p) ((stop b)\<lparr> build_pc := BReturned \<rparr>) = Inl NotEnabled
    \<and> step (BuildRead (ReadErr msg)) b
        = Inr (b\<lparr> events := events b @ [LogReadError msg], build_pc := BCheckStop \<rparr>)
    \<and> (\<not> stopped b \<longrightarrow>
         run [BuildRead (ReadErr msg), BuildStep] b
           = Inr (b\<lparr> events := events b @ [LogReadError msg], build_pc := BReadRTP \<rparr>))"
  using assms by (simp add: build_read_def build_step_def build_pop_def stop_def)

theorem read_error_policy_witness:
  "\<exists>b. run [DoAttachElement 1, BuildStep] (NewBuilder example_names example_track 50) = Inr b
     \<and> build_pc b = BReadRTP \<and> \<not> stopped b \<and> events b = []
     \<and> stop b = b\<lparr> stopped := True, out_closed := True, events := [Close 1, CloseOut] \<rparr>
     \<and> run [BuildRead EOF, BuildStep] b = Inr ((stop b)\<lparr> build_pc := BReturned \<rparr>)
     \<and> step (BuildRead (Pkt example_packet)) ((stop b)\<lparr> build_pc := BReturned \<rparr>)
          = Inl NotEnabled
     \<and> run [BuildRead (ReadErr ''timeout''), BuildStep] b
          = Inr (b\<lparr> events := events b @ [LogReadError ''timeout''], build_pc := BReadRTP \<rparr>)"
proof -
  obtain b where r: "run [DoAttachElement 1, BuildStep]
      (NewBuilder example_names example_track 50) = Inr b"
    by (simp add: run_defs)
  have p: "build_pc b = BReadRTP" and s: "\<not> stopped b" and e: "events b = []"
    and el: "elements b = [1]" and h: "onStopHandler b = None"
    using r by (auto simp: run_defs)
  have st: "stop b = b\<lparr> stopped := True, out_closed := True, events := [Close 1, CloseOut] \<rparr>"
    using s by (simp add: stop_def e el h)
  from read_error_policy [OF p, of "Pkt example_packet" None "''timeout''"] r p s e st
  show ?thesis
    by blast
qed

subsection \<open>C8: a failed write\<close>

text \<open>
  C8. With \<open>forward\<close> holding a received sample and the builder not stopped, the pass
  calls \<open>Write\<close> with that sample on every attached element, in the order of
  attachment, whatever errors the calls return; it logs one error for each call that
  fails (\<open>List.map_filter errs\<close> keeps the errors that are not nil, in order); it
  closes nothing; and \<open>forward\<close> is back at the receive of its loop.
\<close>

theorem write_failure_isolated:
  assumes "forward_pc b = FWrite s" and "\<not> stopped b"
  shows "step (ForwardWrite errs) b
      = Inr (b\<lparr> events := events b @ write_elements errs s (elements b),
                 forward_pc := FReceive \<rparr>)
    \<and> written (write_elements errs s (elements b)) = map (\<lambda>e. (e, s)) (elements b)
    \<and> write_errors (write_elements errs s (elements b)) = List.map_filter errs (elements b)
    \<and> teardown (write_elements errs s (elements b)) = []"
  using assms
  by (simp add: forward_write_def written_write_elements write_errors_write_elements
      teardown_write_elements)

text \<open>Three elements, the first of which fails: the other two are written to all the same.\<close>

theorem write_failure_isolated_witness:
  "\<exists>b. run (DoAttachElement 1 # DoAttachElement 2 # DoAttachElement 3 # one_sample)
          (NewBuilder example_names example_track 50) = Inr b
     \<and> forward_pc b = FWrite (Some sample0) \<and> \<not> stopped b
     \<and> step (ForwardWrite fails1) b
          = Inr (b\<lparr> events := events b @ [Write 1 (Some sample0), LogWriteError ''disk full'',
                       Write 2 (Some sample0), Write 3 (Some sample0)],
                     forward_pc := FReceive \<rparr>)
     \<and> written (write_elements fails1 (Some sample0) (elements b))
          = [(1, Some sample0), (2, Some sample0), (3, Some sample0)]
     \<and> write_errors (write_elements fails1 (Some sample0) (elements b)) = [''disk full'']"
proof -
  obtain b where r: "run (DoAttachElement 1 # DoAttachElement 2 # DoAttachElement 3 # one_sample)
          (NewBuilder example_names example_track 50) = Inr b"
    by (simp add: schedule_defs run_defs)
  have f: "forward_pc b = FWrite (Some sample0)" and s: "\<not> stopped b"
    and e: "elements b = [1, 2, 3]"
    using r by (auto simp: schedule_defs run_defs)
  from write_failure_isolated [OF f s, of fails1] r f s show ?thesis
    by (auto simp: e fails1_def List.map_filter_simps)
qed

subsection \<open>C9: an element attached in mid-flight\<close>

text \<open>
  C9, as the code has it. Let \<open>e\<close> be attached in a state \<open>b1\<close> in which it was not
  attached before, and let \<open>b2\<close> be any later state. The channel hands every sample
  sent to \<open>forward\<close> once, in the order of sending: the samples received so far and
  those still in the channel are the samples sent. The passes of \<open>forward\<close> are
  counted in that order, and the samples received up to \<open>b1\<close> stay the first ones.
  Every write carries the sample received by its pass. \<open>completed b1\<close> samples had
  their pass before \<open>e\<close> was attached; \<open>e\<close> has no write in \<open>b1\<close>, attaching it
  writes nothing, and every write to \<open>e\<close> belongs to a pass of index \<open>completed b1\<close>
  or more: none of the samples dispatched before reaches \<open>e\<close>. A pass writes its sample
  to exactly the elements attached in the state it runs in, in order, unless the builder
  is stopped: then it writes to none.
\<close>

theorem attach_midflight:
  assumes "run as1 (NewBuilder c t m) = Inr b1"
    and "e \<notin> set (elements b1)"
    and "run (DoAttachElement e # as2) b1 = Inr b2"
  shows "(\<forall>s. Write e s \<notin> set (events b1))
    \<and> step (DoAttachElement e) b1 = Inr (b1\<lparr> elements := elements b1 @ [e] \<rparr>)
    \<and> (\<exists>new. events b2 = events b1 @ new)
    \<and> e \<in> set (elements b2)
    \<and> received (events b2) @ out b2 = emitted (events b2)
    \<and> take (length (received (events b1))) (received (events b2)) = received (events b1)
    \<and> completed b1 \<le> length (received (events b1))
    \<and> (\<forall>e' k s. (e', k, s) \<in> set (deliveries 0 (events b2)) \<longrightarrow>
          k < length (received (events b2)) \<and> s = Some (received (events b2) ! k)
          \<and> (e' = e \<longrightarrow> completed b1 \<le> k))
    \<and> (\<forall>s errs. forward_pc b2 = FWrite s \<longrightarrow>
          (\<exists>b3. step (ForwardWrite errs) b2 = Inr b3
             \<and> written (events b3) = written (events b2)
                  @ (if stopped b2 then [] else map (\<lambda>e'. (e', s)) (elements b2))))"
proof -
  from run_attached_inv [OF assms(1)] assms(2)
  have w: "e \<notin> set (written_to (events b1))"
    by (auto simp: attached_inv_def)
  then have 1: "\<forall>s. Write e s \<notin> set (events b1)"
    using Write_in_written_to by blast
  have 2: "step (DoAttachElement e) b1 = Inr (b1\<lparr> elements := elements b1 @ [e] \<rparr>)"
    by (simp add: AttachElement_def)
  from assms(3) have "run as2 (AttachElement e b1) = Inr b2"
    by simp
  from run_elements_extend [OF this] have 4: "e \<in> set (elements b2)"
    by (auto simp: AttachElement_def)
  have i1: "dispatch_inv b1"
    using run_dispatch_inv [OF assms(1)] .
  have i2: "dispatch_inv b2"
    using run_keeps_dispatch_inv [OF assms(3) i1] .
  from i2 have 5: "received (events b2) @ out b2 = emitted (events b2)"
    by (simp add: dispatch_inv_def)
  from run_completed [OF assms(3) i1] obtain new
    where n: "events b2 = events b1 @ new"
      and c: "\<forall>e k s. (e, k, s) \<in> set (deliveries (length (received (events b1))) new)
             \<longrightarrow> completed b1 \<le> k"
    by blast
  from n have 3: "\<exists>new. events b2 = events b1 @ new"
    by blast
  from n have 6: "take (length (received (events b1))) (received (events b2))
      = received (events b1)"
    by (simp add: received_append)
  have 7: "completed b1 \<le> length (received (events b1))"
    by (simp add: completed_def)
  have 8: "\<forall>e' k s. (e', k, s) \<in> set (deliveries 0 (events b2)) \<longrightarrow>
          k < length (received (events b2)) \<and> s = Some (received (events b2) ! k)
          \<and> (e' = e \<longrightarrow> completed b1 \<le> k)"
  proof (intro allI impI)
    fix e' k s
    assume d: "(e', k, s) \<in> set (deliveries 0 (events b2))"
    with i2 have a: "k < length (received (events b2)) \<and> s = Some (received (events b2) ! k)"
      unfolding dispatch_inv_def by blast
    have "completed b1 \<le> k" if "e' = e"
    proof -
      from d n consider "(e', k, s) \<in> set (deliveries 0 (events b1))"
        | "(e', k, s) \<in> set (deliveries (length (received (events b1))) new)"
        by (auto simp: deliveries_append)
      then show ?thesis
      proof cases
        case 1
        then have "e' \<in> set (written_to (events b1))"
          by (rule delivered_written_to)
        with w that show ?thesis by simp
      next
        case 2
        with c show ?thesis by blast
      qed
    qed
    with a show "k < length (received (events b2)) \<and> s = Some (received (events b2) ! k)
          \<and> (e' = e \<longrightarrow> completed b1 \<le> k)"
      by blast
  qed
  have 9: "\<forall>s errs. forward_pc b2 = FWrite s \<longrightarrow>
          (\<exists>b3. step (ForwardWrite errs) b2 = Inr b3
             \<and> written (events b3) = written (events b2)
                  @ (if stopped b2 then [] else map (\<lambda>e'. (e', s)) (elements b2)))"
    by (simp add: forward_write_def written_append written_write_elements)
  from 1 2 3 4 5 6 7 8 9 show ?thesis
    by blast
qed

text \<open>
  Element 1 receives the first sample; element 2 is attached then; the second sample goes
  to both, the first one to element 1 only.
\<close>

theorem attach_midflight_witness:
  "\<exists>b1 b2 b3. run (DoAttachElement 1 # one_sample @ [ForwardWrite (\<lambda>e. None)])
          (NewBuilder example_names example_track 50) = Inr b1
     \<and> 2 \<notin> set (elements b1)
     \<and> received (events b1) = [sample0] \<and> completed b1 = 1
     \<and> (\<forall>s. Write 2 s \<notin> set (events b1))
     \<and> run [DoAttachElement 2, BuildPop (Some ([8], 6)), BuildStep, BuildStep, ForwardReceive] b1
          = Inr b2
     \<and> forward_pc b2 = FWrite (Some sample1) \<and> \<not> stopped b2
     \<and> (\<exists>b. step (ForwardWrite (\<lambda>e. None)) b2 = Inr b
           \<and> written (events b)
               = [(1, Some sample0), (1, Some sample1), (2, Some sample1)])
     \<and> run [DoAttachElement 2, BuildPop (Some ([8], 6)), BuildStep, BuildStep, ForwardReceive,
          ForwardWrite (\<lambda>e. None)] b1 = Inr b3
     \<and> received (events b3) = [sample0, sample1] \<and> out b3 = []
     \<and> emitted (events b3) = [sample0, sample1]
     \<and> deliveries 0 (events b3)
          = [(1, 0, Some sample0), (1, 1, Some sample1), (2, 1, Some sample1)]
     \<and> (\<forall>e' k s. (e', k, s) \<in> set (deliveries 0 (events b3)) \<longrightarrow>
           k < length (received (events b3)) \<and> s = Some (received (events b3) ! k)
           \<and> (e' = 2 \<longrightarrow> completed b1 \<le> k))"
proof -
  obtain b1 where r1: "run (DoAttachElement 1 # one_sample @ [ForwardWrite (\<lambda>e. None)])
          (NewBuilder example_names example_track 50) = Inr b1"
    by (simp add: schedule_defs run_defs)
  have e1: "2 \<notin> set (elements b1)" and v1: "received (events b1) = [sample0]"
    and c1: "completed b1 = 1"
    using r1 by (auto simp: schedule_defs run_defs completed_def)
  obtain b2 where r2: "run [DoAttachElement 2, BuildPop (Some ([8], 6)), BuildStep, BuildStep,
      ForwardReceive] b1 = Inr b2"
    using r1 by (auto simp: schedule_defs run_defs)
  have f2: "forward_pc b2 = FWrite (Some sample1)"
    and s2: "\<not> stopped b2" and el2: "elements b2 = [1, 2]"
    and w2: "written (events b2) = [(1, Some sample0)]"
    using r1 r2 by (auto simp: schedule_defs run_defs)
  obtain b3 where r3: "run [DoAttachElement 2, BuildPop (Some ([8], 6)), BuildStep, BuildStep,
      ForwardReceive, ForwardWrite (\<lambda>e. None)] b1 = Inr b3"
    using r1 by (auto simp: schedule_defs run_defs)
  have v3: "received (events b3) = [sample0, sample1]" and o3: "out b3 = []"
    and m3: "emitted (events b3) = [sample0, sample1]"
    and d3: "deliveries 0 (events b3)
          = [(1, 0, Some sample0), (1, 1, Some sample1), (2, 1, Some sample1)]"
    using r1 r3 by (auto simp: schedule_defs run_defs)
  from attach_midflight [OF r1 e1 r2] f2 s2
  have p2: "\<exists>b. step (ForwardWrite (\<lambda>e. None)) b2 = Inr b
           \<and> written (events b)
               = [(1, Some sample0), (1, Some sample1), (2, Some sample1)]"
    by (simp add: el2 w2)
  from attach_midflight [OF r1 e1 r3]
  have p3: "(\<forall>s. Write 2 s \<notin> set (events b1))
     \<and> (\<forall>e' k s. (e', k, s) \<in> set (deliveries 0 (events b3)) \<longrightarrow>
           k < length (received (events b3)) \<and> s = Some (received (events b3) ! k)
           \<and> (e' = 2 \<longrightarrow> completed b1 \<le> k))"
    by blast
  from r1 e1 v1 c1 r2 f2 s2 p2 r3 v3 o3 m3 d3 p3 show ?thesis
    by blast
qed

text \<open>
  C9, as it is stated, fails for a sample whose pass finds the builder stopped: element 1
  is attached when \<open>forward\<close> reads \<open>elements\<close> for the sample it received, and the
  sample is written to no element.
\<close>

theorem stopped_pass_delivers_nothing:
  "(case run (DoAttachElement 1 # one_sample @ [DoStop, ForwardWrite (\<lambda>e. None)])
          (NewBuilder example_names example_track 50) of
      Inl f \<Rightarrow> False
    | Inr b \<Rightarrow> elements b = [1] \<and> received (events b) = [sample0]
        \<and> forward_pc b = FReturned \<and> written (events b) = [])"
  by (simp add: schedule_defs run_defs)

subsection \<open>C10: an element attached after the stop\<close>

text \<open>
  C10. On a stopped builder \<open>AttachElement\<close> still appends the element. An element that
  was not attached before is, whatever follows, never written to and never closed.
\<close>

theorem attach_after_stop:
  assumes "run as1 (NewBuilder c t m) = Inr b1"
    and "stopped b1"
    and "e \<notin> set (elements b1)"
    and "run (DoAttachElement e # as2) b1 = Inr b2"
  shows "step (DoAttachElement e) b1 = Inr (b1\<lparr> elements := elements b1 @ [e] \<rparr>)
    \<and> e \<in> set (elements b2)
    \<and> (\<forall>s. Write e s \<notin> set (events b2))
    \<and> Close e \<notin> set (events b2)"
proof -
  from run_attached_inv [OF assms(1)] assms(3)
  have 0: "e \<notin> set (written_to (events b1))" "e \<notin> set (closes (events b1))"
    by (auto simp: attached_inv_def)
  have 1: "step (DoAttachElement e) b1 = Inr (b1\<lparr> elements := elements b1 @ [e] \<rparr>)"
    by (simp add: AttachElement_def)
  from assms(4) have r: "run as2 (AttachElement e b1) = Inr b2"
    by simp
  from run_elements_extend [OF r] have 2: "e \<in> set (elements b2)"
    by (auto simp: AttachElement_def)
  have "stopped (AttachElement e b1)"
    using assms(2) by (simp add: AttachElement_def)
  from run_after_stop [OF this r] 0
  have "e \<notin> set (written_to (events b2))" "e \<notin> set (closes (events b2))"
    by (simp_all add: AttachElement_def)
  then have 3: "\<forall>s. Write e s \<notin> set (events b2)" and 4: "Close e \<notin> set (events b2)"
    using Write_in_written_to Close_in_closes by blast+
  from 1 2 3 4 show ?thesis
    by blast
qed

text \<open>
  The builder is stopped while a sample waits in the channel and another one is held by
  \<open>forward\<close>; element 2 is attached then and gets neither a write nor a close.
\<close>

theorem attach_after_stop_witness:
  "\<exists>b1 b2. run (DoAttachElement 1 # one_sample
            @ [BuildPop (Some ([8], 6)), BuildStep, BuildStep, DoStop])
          (NewBuilder example_names example_track 50) = Inr b1
     \<and> stopped b1 \<and> 2 \<notin> set (elements b1)
     \<and> out b1 = [sample1]
     \<and> run [DoAttachElement 2, ForwardWrite (\<lambda>e. None), BuildPop None, BuildStep, DoStop] b1
          = Inr b2
     \<and> elements b2 = [1, 2]
     \<and> (\<forall>s. Write 2 s \<notin> set (events b2)) \<and> Close 2 \<notin> set (events b2)"
proof -
  obtain b1 where r1: "run (DoAttachElement 1 # one_sample
            @ [BuildPop (Some ([8], 6)), BuildStep, BuildStep, DoStop])
          (NewBuilder example_names example_track 50) = Inr b1"
    by (simp add: schedule_defs run_defs)
  have s1: "stopped b1" and e1: "2 \<notin> set (elements b1)"
    and o1: "out b1 = [sample1]"
    using r1 by (auto simp: schedule_defs run_defs)
  obtain b2 where r2: "run [DoAttachElement 2, ForwardWrite (\<lambda>e. None), BuildPop None,
      BuildStep, DoStop] b1 = Inr b2"
    using r1 by (auto simp: schedule_defs run_defs)
  have el2: "elements b2 = [1, 2]"
    using r1 r2 by (auto simp: schedule_defs run_defs)
  from attach_after_stop [OF r1 s1 e1 r2] r1 s1 e1 o1 r2 el2 show ?thesis
    by blast
qed

end
